theory Spec2Isabelle
  imports Complex_Main "HOL-Library.Sublist"
begin

section \<open>The edge transport: an isolated promise buffer and a fetch adapter\<close>

text \<open>
  The development embeds the TypeScript module that defines \<open>IsolatedPromiseBuffer\<close> and
  \<open>makeEdgeTransport\<close>. Synchronous code is translated function by function. Promises are
  values (\<open>Pending\<close>, \<open>Fulfilled\<close>, \<open>Rejected\<close>); what the event loop does later (a producer's
  future settles, the timer set by \<open>drain\<close> fires) is a list of events delivered to the state
  one drain call leaves behind.
\<close>

subsection \<open>JavaScript numbers and promises\<close>

text \<open>
  \<open>_bufferSize\<close> and \<open>timeout\<close> have the TypeScript type \<open>number\<close>. Only comparisons and the
  truthiness test are applied to them, so a number is a real or one of the three special
  values.
\<close>

datatype number = Num real | PosInfinity | NegInfinity | NaN

text \<open>\<open>if (x)\<close>: zero and \<open>NaN\<close> are falsy.\<close>

fun truthy :: "number \<Rightarrow> bool" where
  "truthy (Num r) = (r \<noteq> 0)"
| "truthy PosInfinity = True"
| "truthy NegInfinity = True"
| "truthy NaN = False"

text \<open>\<open>x > 0\<close>.\<close>

fun positive :: "number \<Rightarrow> bool" where
  "positive (Num r) = (0 < r)"
| "positive PosInfinity = True"
| "positive NegInfinity = False"
| "positive NaN = False"

text \<open>\<open>n >= x\<close> and \<open>n < x\<close> for an array length \<open>n\<close>; every comparison with \<open>NaN\<close> is false.\<close>

fun length_ge :: "nat \<Rightarrow> number \<Rightarrow> bool" where
  "length_ge n (Num c) = (c \<le> real n)"
| "length_ge n PosInfinity = False"
| "length_ge n NegInfinity = True"
| "length_ge n NaN = False"

fun length_less :: "nat \<Rightarrow> number \<Rightarrow> bool" where
  "length_less n (Num c) = (real n < c)"
| "length_less n PosInfinity = True"
| "length_less n NegInfinity = False"
| "length_less n NaN = False"

datatype ('a, 'e) promise = Pending | Fulfilled 'a | Rejected 'e

fun settled :: "('a, 'e) promise \<Rightarrow> bool" where
  "settled Pending = False"
| "settled (Fulfilled v) = True"
| "settled (Rejected e) = True"

text \<open>
  \<open>SentryError\<close> is the error class \<open>add\<close> rejects with; \<open>OtherError\<close> stands for any other value
  a producer or the network call fails with.
\<close>

datatype error = SentryError string | OtherError string

subsection \<open>TransportMakeRequestResponse\<close>

text \<open>
  The result of one send: a status code and a header object. A key of the header object is
  bound to a string or to \<open>null\<close> (\<open>Some None\<close>); an absent key is \<open>None\<close>.
\<close>

record TransportMakeRequestResponse =
  statusCode :: int
  headers :: "string \<rightharpoonup> string option"

subsection \<open>IsolatedPromiseBuffer\<close>

text \<open>
  A task producer is a closure of the caller: the buffer stores it and calls it. Its type
  \<open>'p\<close> is left open; what a call does is given by the environment (see \<open>call_result\<close>).
\<close>

record 'p IsolatedPromiseBuffer =
  dollar :: "(TransportMakeRequestResponse, error) promise list"
  taskProducers :: "'p list"
  bufferSize :: number

definition DEFAULT_TRANSPORT_BUFFER_SIZE :: number where
  "DEFAULT_TRANSPORT_BUFFER_SIZE = Num 30"

text \<open>The constructor: the default parameter value applies when the argument is \<open>undefined\<close>.\<close>

definition new_buffer :: "number option \<Rightarrow> 'p IsolatedPromiseBuffer" where
  "new_buffer arg =
     \<lparr> dollar = [],
       taskProducers = [],
       bufferSize = (case arg of None \<Rightarrow> DEFAULT_TRANSPORT_BUFFER_SIZE | Some n \<Rightarrow> n) \<rparr>"

definition buffer_limit_message :: string where
  "buffer_limit_message = ''Not adding Promise because buffer limit was reached.''"

text \<open>\<open>add\<close> returns the promise it hands back and the buffer after the call.\<close>

definition add ::
  "'p IsolatedPromiseBuffer \<Rightarrow> 'p \<Rightarrow> (unit, error) promise \<times> 'p IsolatedPromiseBuffer" where
  "add b taskProducer =
     (if length_ge (length (taskProducers b)) (bufferSize b)
      then (Rejected (SentryError buffer_limit_message), b)
      else (Fulfilled (), b\<lparr>taskProducers := taskProducers b @ [taskProducer]\<rparr>))"

text \<open>
  What calling a task producer does at once: it returns a future, or it throws. A returned
  future is pending at that moment; its settlement arrives later as an event (at the very
  next event when the future was settled already).
\<close>

datatype call_result = Returns | Throws error

text \<open>
  \<open>oldTaskProducers.map(taskProducer => taskProducer().then(...))\<close>: the producers are called
  in array order, and a throwing call ends the \<open>map\<close>. The result is the list of producers that
  returned a future and, when a call threw, the thrower with its error.
\<close>

fun invoke_all :: "('p \<Rightarrow> call_result) \<Rightarrow> 'p list \<Rightarrow> 'p list \<times> ('p \<times> error) option" where
  "invoke_all invoke [] = ([], None)"
| "invoke_all invoke (p # ps) =
     (case invoke p of
        Throws e \<Rightarrow> ([], Some (p, e))
      | Returns \<Rightarrow> (case invoke_all invoke ps of (qs, thrown) \<Rightarrow> (p # qs, thrown)))"

text \<open>
  The state one \<open>drain\<close> call leaves behind, held by the closures of its promise executor:
  \<open>started\<close> lists every producer called, in call order; \<open>futures\<close> holds the futures they
  returned; \<open>timer\<close> tells whether the timer is still set (neither fired nor cleared);
  \<open>watching\<close> tells whether the callback chained on \<open>Promise.all\<close> is attached and has not
  run; \<open>result\<close> is the promise \<open>drain\<close> returned.
\<close>

record 'p episode =
  started :: "'p list"
  futures :: "(TransportMakeRequestResponse, error) promise list"
  timeout :: "number option"
  timer :: bool
  watching :: bool
  result :: "(bool, error) promise"

text \<open>
  \<open>drain\<close> up to its \<open>return\<close>: the pending list is copied and replaced by a new empty array,
  the executor sets the timer and calls the producers. An exception in the executor rejects
  the promise, leaves the timer set and skips \<open>Promise.all\<close>.
\<close>

definition drain ::
  "('p \<Rightarrow> call_result) \<Rightarrow> 'p IsolatedPromiseBuffer \<Rightarrow> number option \<Rightarrow>
     'p episode \<times> 'p IsolatedPromiseBuffer" where
  "drain invoke b timeout_arg =
     (let oldTaskProducers = taskProducers b;
          b' = b\<lparr>taskProducers := []\<rparr>
      in case invoke_all invoke oldTaskProducers of
           (returned, thrown) \<Rightarrow>
             (\<lparr> started = returned @ (case thrown of None \<Rightarrow> [] | Some (p, e) \<Rightarrow> [p]),
                futures = map (\<lambda>p. Pending) returned,
                timeout = timeout_arg,
                timer = True,
                watching = (thrown = None),
                result = (case thrown of None \<Rightarrow> Pending | Some (p, e) \<Rightarrow> Rejected e) \<rparr>,
              b'))"

text \<open>\<open>resolve(v)\<close>: only the first settlement of a promise counts.\<close>

definition resolve :: "bool \<Rightarrow> 'p episode \<Rightarrow> 'p episode" where
  "resolve v ep = (if result ep = Pending then ep\<lparr>result := Fulfilled v\<rparr> else ep)"

text \<open>The timer's callback: \<open>if (timeout && timeout > 0) resolve(false)\<close>.\<close>

definition timer_callback :: "'p episode \<Rightarrow> 'p episode" where
  "timer_callback ep =
     (if (case timeout ep of None \<Rightarrow> False | Some t \<Rightarrow> truthy t \<and> positive t)
      then resolve False ep else ep)"

text \<open>\<open>p.then(null, () => {})\<close>: a rejection becomes a fulfilment with \<open>undefined\<close>.\<close>

fun caught :: "('a, 'e) promise \<Rightarrow> ('a option, 'e) promise" where
  "caught Pending = Pending"
| "caught (Fulfilled v) = Fulfilled (Some v)"
| "caught (Rejected e) = Fulfilled None"

text \<open>
  \<open>Promise.all\<close> on a snapshot of its inputs: rejected when an input is rejected, fulfilled
  with all values when every input is fulfilled, pending otherwise.
\<close>

fun promise_all :: "('a, 'e) promise list \<Rightarrow> ('a list, 'e) promise" where
  "promise_all [] = Fulfilled []"
| "promise_all (Rejected e # ps) = Rejected e"
| "promise_all (Pending # ps) =
     (case promise_all ps of Rejected e \<Rightarrow> Rejected e | _ \<Rightarrow> Pending)"
| "promise_all (Fulfilled v # ps) =
     (case promise_all ps of
        Fulfilled vs \<Rightarrow> Fulfilled (v # vs)
      | Pending \<Rightarrow> Pending
      | Rejected e \<Rightarrow> Rejected e)"

text \<open>The callback chained on \<open>Promise.all\<close>: \<open>clearTimeout(timer); resolve(true)\<close>.\<close>

definition all_callback :: "'p episode \<Rightarrow> 'p episode" where
  "all_callback ep = resolve True (ep\<lparr>timer := False\<rparr>)"

text \<open>
  The promise jobs that run before the event loop takes the next event: when the combined
  promise is fulfilled, its callback runs, once. Only a fulfilment handler is attached.
\<close>

definition checkpoint :: "'p episode \<Rightarrow> 'p episode" where
  "checkpoint ep =
     (if watching ep
      then (case promise_all (map caught (futures ep)) of
              Fulfilled vs \<Rightarrow> all_callback (ep\<lparr>watching := False\<rparr>)
            | Pending \<Rightarrow> ep
            | Rejected e \<Rightarrow> ep)
      else ep)"

text \<open>
  The events of the loop that reach a drain: the timer elapses, or the future of the
  \<open>i\<close>-th called producer is fulfilled or rejected. A future settles once; a timer that
  was cleared or has fired does not fire.
\<close>

datatype event =
    TimerFires
  | Fulfils nat TransportMakeRequestResponse
  | Rejects nat error

definition settle ::
  "nat \<Rightarrow> (TransportMakeRequestResponse, error) promise \<Rightarrow> 'p episode \<Rightarrow> 'p episode" where
  "settle i s ep =
     (if i < length (futures ep) \<and> futures ep ! i = Pending
      then ep\<lparr>futures := (futures ep)[i := s]\<rparr> else ep)"

fun deliver :: "'p episode \<Rightarrow> event \<Rightarrow> 'p episode" where
  "deliver ep TimerFires = (if timer ep then timer_callback (ep\<lparr>timer := False\<rparr>) else ep)"
| "deliver ep (Fulfils i r) = checkpoint (settle i (Fulfilled r) ep)"
| "deliver ep (Rejects i e) = checkpoint (settle i (Rejected e) ep)"

text \<open>
  The state of a drain after the turn that called it has ended and the events \<open>evs\<close> have
  been handled, oldest first.
\<close>

definition after_events :: "'p episode \<Rightarrow> event list \<Rightarrow> 'p episode" where
  "after_events ep evs = foldl deliver (checkpoint ep) evs"

subsection \<open>Sequences of calls on one buffer\<close>

text \<open>
  A buffer together with what its calls have produced so far, oldest first: the promises
  returned by \<open>add\<close>, every call of a producer, and the drains started.
\<close>

record 'p world =
  buffer :: "'p IsolatedPromiseBuffer"
  added :: "(unit, error) promise list"
  calls :: "'p list"
  episodes :: "'p episode list"

datatype 'p operation = Add 'p | Drain "number option"

definition new_world :: "number option \<Rightarrow> 'p world" where
  "new_world arg = \<lparr> buffer = new_buffer arg, added = [], calls = [], episodes = [] \<rparr>"

fun perform :: "('p \<Rightarrow> call_result) \<Rightarrow> 'p world \<Rightarrow> 'p operation \<Rightarrow> 'p world" where
  "perform invoke w (Add p) =
     (case add (buffer w) p of
        (returned, b') \<Rightarrow> w\<lparr>buffer := b', added := added w @ [returned]\<rparr>)"
| "perform invoke w (Drain t) =
     (case drain invoke (buffer w) t of
        (ep, b') \<Rightarrow> w\<lparr>buffer := b', calls := calls w @ started ep, episodes := episodes w @ [ep]\<rparr>)"

definition perform_all :: "('p \<Rightarrow> call_result) \<Rightarrow> 'p world \<Rightarrow> 'p operation list \<Rightarrow> 'p world" where
  "perform_all invoke w ops = foldl (perform invoke) w ops"

subsection \<open>makeEdgeTransport\<close>

text \<open>
  A \<open>RequestInit\<close> object maps field names to values; an object literal with a spread is a
  map overridden by another (\<open>++\<close>). A header object maps header names to strings.
\<close>

datatype init_value = Undefined | Str string | Flag bool | HeadersInit "string \<rightharpoonup> string"

type_synonym RequestInit = "string \<rightharpoonup> init_value"

text \<open>
  \<open>EdgeTransportOptions\<close>: \<open>url\<close> and \<open>bufferSize\<close> come from \<open>BaseTransportOptions\<close>; the
  optional fields are \<open>None\<close> when absent.
\<close>

record EdgeTransportOptions =
  url :: string
  bufferSize_opt :: "number option"
  fetchOptions :: "RequestInit option"
  headers_opt :: "(string \<rightharpoonup> string) option"

record TransportRequest =
  body :: string

text \<open>
  The part of a fetch \<open>Response\<close> that is read: \<open>status\<close> and \<open>headers.get\<close>, which yields the
  value of the named header or \<open>null\<close> (\<open>None\<close>).
\<close>

record Response =
  status :: int
  headers_get :: "string \<Rightarrow> string option"

definition requestOptions :: "EdgeTransportOptions \<Rightarrow> TransportRequest \<Rightarrow> RequestInit" where
  "requestOptions options request =
     [ ''body'' \<mapsto> Str (body request),
       ''method'' \<mapsto> Str ''POST'',
       ''referrerPolicy'' \<mapsto> Str ''origin'',
       ''headers'' \<mapsto> (case headers_opt options of None \<Rightarrow> Undefined | Some h \<Rightarrow> HeadersInit h) ]
     ++ (case fetchOptions options of None \<Rightarrow> Map.empty | Some overlay \<Rightarrow> overlay)"

text \<open>The callback applied to the response.\<close>

definition on_response :: "Response \<Rightarrow> TransportMakeRequestResponse" where
  "on_response response =
     \<lparr> statusCode = status response,
       headers = [ ''x-sentry-rate-limits'' \<mapsto> headers_get response ''X-Sentry-Rate-Limits'',
                   ''retry-after'' \<mapsto> headers_get response ''Retry-After'' ] \<rparr>"

text \<open>\<open>p.then(f)\<close> with a fulfilment handler only.\<close>

fun then_apply :: "('a \<Rightarrow> 'b) \<Rightarrow> ('a, 'e) promise \<Rightarrow> ('b, 'e) promise" where
  "then_apply f Pending = Pending"
| "then_apply f (Fulfilled v) = Fulfilled (f v)"
| "then_apply f (Rejected e) = Rejected e"

text \<open>
  \<open>makeRequest\<close>, with the platform's \<open>fetch\<close> as a parameter: \<open>fetch\<close> gives the state of the
  promise of the network call made with a URL and a \<open>RequestInit\<close>.
\<close>

definition makeRequest ::
  "(string \<Rightarrow> RequestInit \<Rightarrow> (Response, error) promise) \<Rightarrow> EdgeTransportOptions \<Rightarrow>
     TransportRequest \<Rightarrow> (TransportMakeRequestResponse, error) promise" where
  "makeRequest fetch options request =
     then_apply on_response (fetch (url options) (requestOptions options request))"

text \<open>The buffer \<open>makeEdgeTransport\<close> hands to \<open>createTransport\<close>.\<close>

definition transport_buffer :: "EdgeTransportOptions \<Rightarrow> 'p IsolatedPromiseBuffer" where
  "transport_buffer options = new_buffer (bufferSize_opt options)"

subsection \<open>Derived notions\<close>

text \<open>
  The guard of the timer's callback, \<open>timeout && timeout > 0\<close>, as a condition on the
  argument of \<open>drain\<close>.
\<close>

definition effective :: "number option \<Rightarrow> bool" where
  "effective t = (case t of None \<Rightarrow> False | Some n \<Rightarrow> truthy n \<and> positive n)"

text \<open>
  \<open>x <= 0\<close>.
\<close>

fun non_positive :: "number \<Rightarrow> bool" where
  "non_positive (Num r) = (r \<le> 0)"
| "non_positive PosInfinity = False"
| "non_positive NegInfinity = True"
| "non_positive NaN = False"

text \<open>
  The second operand of the spread in \<open>requestOptions\<close>: the fields of
  \<open>options.fetchOptions\<close>, none when it is absent.
\<close>

definition overlay :: "EdgeTransportOptions \<Rightarrow> RequestInit" where
  "overlay options = (case fetchOptions options of None \<Rightarrow> Map.empty | Some f \<Rightarrow> f)"

text \<open>
  The invariant of a drain none of whose producer calls threw, from the end of the calling
  turn on: the promise is not rejected, the callback on \<open>Promise.all\<close> is attached exactly
  while a future is pending, the promise is settled once the callback has run, the timer is
  set only while the promise is pending, and the promise is \<open>true\<close> only after the callback.
\<close>

definition orderly :: "'p episode \<Rightarrow> bool" where
  "orderly s \<longleftrightarrow>
     (\<forall>e. result s \<noteq> Rejected e) \<and>
     (watching s = (\<not> list_all settled (futures s))) \<and>
     (watching s \<or> result s \<noteq> Pending) \<and>
     (timer s \<longrightarrow> watching s \<and> result s = Pending) \<and>
     (result s = Fulfilled True \<longrightarrow> \<not> watching s)"

section \<open>Properties of the embedding\<close>

subsection \<open>Numbers, calls and the buffer\<close>

lemma length_less_not_ge: "length_less n c \<Longrightarrow> \<not> length_ge n c"
  by (cases c) auto

lemma non_positive_not_effective: "non_positive n \<Longrightarrow> \<not> effective (Some n)"
  by (cases n) (auto simp: effective_def)

lemma positive_effective: "positive n \<Longrightarrow> effective (Some n)"
  by (cases n) (auto simp: effective_def)

lemma invoke_all_Returns:
  "\<forall>p \<in> set ps. invoke p = Returns \<Longrightarrow> invoke_all invoke ps = (ps, None)"
  by (induction ps) auto

lemma invoke_all_prefix:
  "invoke_all invoke ps = (qs, thrown) \<Longrightarrow>
     prefix (qs @ (case thrown of None \<Rightarrow> [] | Some (p, e) \<Rightarrow> [p])) ps"
  by (induction ps arbitrary: qs thrown) (auto split: call_result.splits prod.splits)

lemma drain_no_throw:
  assumes "\<forall>p \<in> set (taskProducers b). invoke p = Returns"
  shows "fst (drain invoke b t) =
           \<lparr> started = taskProducers b, futures = map (\<lambda>p. Pending) (taskProducers b),
             timeout = t, timer = True, watching = True, result = Pending \<rparr>"
  using invoke_all_Returns [OF assms] by (simp add: drain_def)

lemma drain_fields [simp]:
  "timeout (fst (drain invoke b t)) = t"
  "timer (fst (drain invoke b t)) = True"
  "result (fst (drain invoke b t)) \<noteq> Fulfilled v"
  "list_all (\<lambda>f. f = Pending) (futures (fst (drain invoke b t)))"
  by (auto simp: drain_def list_all_iff split: prod.splits option.splits)

lemma drain_prefix: "prefix (started (fst (drain invoke b t))) (taskProducers b)"
  using invoke_all_prefix [of invoke "taskProducers b"]
  by (auto simp: drain_def split: prod.splits)

lemma drain_buffer: "snd (drain invoke b t) = b\<lparr>taskProducers := []\<rparr>"
  by (simp add: drain_def split: prod.splits)

lemma perform_drain:
  "perform invoke w (Drain t) =
     w\<lparr>buffer := (buffer w)\<lparr>taskProducers := []\<rparr>,
       calls := calls w @ started (fst (drain invoke (buffer w) t)),
       episodes := episodes w @ [fst (drain invoke (buffer w) t)]\<rparr>"
proof -
  obtain ep b' where d: "drain invoke (buffer w) t = (ep, b')"
    by (cases "drain invoke (buffer w) t")
  with drain_buffer [of invoke "buffer w" t] have "b' = (buffer w)\<lparr>taskProducers := []\<rparr>"
    by simp
  with d show ?thesis by simp
qed

lemma perform_dollar: "dollar (buffer (perform invoke w op)) = dollar (buffer w)"
  by (cases op) (auto simp: add_def drain_def split: prod.splits)

lemma perform_all_dollar: "dollar (buffer (perform_all invoke w ops)) = dollar (buffer w)"
  unfolding perform_all_def by (induction ops arbitrary: w) (simp_all add: perform_dollar)

lemma adds_fit:
  assumes "bufferSize (buffer w) = Num c"
    and "real (length (taskProducers (buffer w)) + length ps) \<le> c"
  shows "perform_all invoke w (map Add ps) =
           w\<lparr>buffer := (buffer w)\<lparr>taskProducers := taskProducers (buffer w) @ ps\<rparr>,
              added := added w @ replicate (length ps) (Fulfilled ())\<rparr>"
  using assms
proof (induction ps arbitrary: w)
  case Nil
  show ?case by (simp add: perform_all_def)
next
  case (Cons p ps)
  let ?w = "w\<lparr>buffer := (buffer w)\<lparr>taskProducers := taskProducers (buffer w) @ [p]\<rparr>,
               added := added w @ [Fulfilled ()]\<rparr>"
  from Cons.prems have "\<not> length_ge (length (taskProducers (buffer w))) (bufferSize (buffer w))"
    by simp
  then have step: "perform invoke w (Add p) = ?w"
    by (simp add: add_def)
  have "perform_all invoke ?w (map Add ps) =
          ?w\<lparr>buffer := (buffer ?w)\<lparr>taskProducers := taskProducers (buffer ?w) @ ps\<rparr>,
              added := added ?w @ replicate (length ps) (Fulfilled ())\<rparr>"
    using Cons.prems by (intro Cons.IH) simp_all
  moreover have "perform_all invoke w (map Add (p # ps)) = perform_all invoke ?w (map Add ps)"
    by (simp only: perform_all_def list.map foldl_Cons step)
  ultimately show ?case by simp
qed

subsection \<open>Promise combinators and single events\<close>

lemma promise_all_caught_settled:
  "list_all settled fs \<Longrightarrow> \<exists>vs. promise_all (map caught fs) = Fulfilled vs"
proof (induction fs)
  case Nil
  show ?case by simp
next
  case (Cons f fs)
  then obtain vs where "promise_all (map caught fs) = Fulfilled vs" by auto
  with Cons.prems show ?case by (cases f) simp_all
qed

lemma promise_all_caught_pending:
  "\<not> list_all settled fs \<Longrightarrow> promise_all (map caught fs) = Pending"
proof (induction fs)
  case Nil
  then show ?case by simp
next
  case (Cons f fs)
  show ?case
  proof (cases "list_all settled fs")
    case True
    with Cons.prems have "f = Pending" by (cases f) simp_all
    moreover from True obtain vs where "promise_all (map caught fs) = Fulfilled vs"
      using promise_all_caught_settled by blast
    ultimately show ?thesis by simp
  next
    case False
    with Cons.IH have "promise_all (map caught fs) = Pending" by simp
    then show ?thesis by (cases f) simp_all
  qed
qed

lemma checkpoint_eq:
  "checkpoint ep =
     (if watching ep \<and> list_all settled (futures ep)
      then resolve True (ep\<lparr>watching := False, timer := False\<rparr>) else ep)"
proof (cases "list_all settled (futures ep)")
  case True
  then obtain vs where "promise_all (map caught (futures ep)) = Fulfilled vs"
    using promise_all_caught_settled by blast
  with True show ?thesis by (simp add: checkpoint_def all_callback_def)
next
  case False
  then have "promise_all (map caught (futures ep)) = Pending"
    by (rule promise_all_caught_pending)
  with False show ?thesis by (simp add: checkpoint_def)
qed

lemma settle_fields [simp]:
  "started (settle i f s) = started s" "timeout (settle i f s) = timeout s"
  "timer (settle i f s) = timer s" "watching (settle i f s) = watching s"
  "result (settle i f s) = result s" "length (futures (settle i f s)) = length (futures s)"
  by (simp_all add: settle_def)

lemma checkpoint_fields [simp]:
  "started (checkpoint s) = started s" "timeout (checkpoint s) = timeout s"
  "futures (checkpoint s) = futures s"
  by (simp_all add: checkpoint_eq resolve_def)

lemma deliver_fields [simp]:
  "started (deliver s ev) = started s" "timeout (deliver s ev) = timeout s"
  "length (futures (deliver s ev)) = length (futures s)"
  by (cases ev; simp add: timer_callback_def resolve_def)+

lemma after_events_snoc: "after_events ep (evs @ [ev]) = deliver (after_events ep evs) ev"
  by (simp add: after_events_def)

lemma foldl_deliver_fields [simp]:
  "started (foldl deliver s evs) = started s" "timeout (foldl deliver s evs) = timeout s"
  "length (futures (foldl deliver s evs)) = length (futures s)"
  by (induction evs arbitrary: s) simp_all

lemma after_events_fields [simp]:
  "started (after_events ep evs) = started ep" "timeout (after_events ep evs) = timeout ep"
  "length (futures (after_events ep evs)) = length (futures ep)"
  by (simp_all add: after_events_def)

lemma settle_keeps_settled:
  "list_all settled (futures s) \<Longrightarrow> settle i f s = s"
  by (auto simp: settle_def list_all_length)

lemma deliver_settles:
  assumes "i < length (futures s)" "futures s ! i = Pending"
  shows "futures (deliver s (Fulfils i r)) ! i = Fulfilled r"
    and "futures (deliver s (Rejects i e)) ! i = Rejected e"
  using assms by (simp_all add: settle_def)

lemma deliver_leaves_others:
  assumes "j \<noteq> i"
  shows "futures (deliver s (Fulfils i r)) ! j = futures s ! j"
    and "futures (deliver s (Rejects i e)) ! j = futures s ! j"
  using assms by (simp_all add: settle_def)

lemma deliver_timer_futures: "futures (deliver s TimerFires) = futures s"
  by (simp add: timer_callback_def resolve_def)

lemma result_sticky: "result s \<noteq> Pending \<Longrightarrow> result (deliver s ev) = result s"
  by (cases ev) (simp_all add: timer_callback_def resolve_def checkpoint_eq)

lemma result_sticky_foldl: "result s \<noteq> Pending \<Longrightarrow> result (foldl deliver s evs) = result s"
  by (induction evs arbitrary: s) (simp_all add: result_sticky)

subsection \<open>Invariants of a drain\<close>

lemma orderly_checkpoint_start:
  assumes "\<forall>p \<in> set (taskProducers b). invoke p = Returns"
  shows "orderly (checkpoint (fst (drain invoke b t)))"
  unfolding drain_no_throw [OF assms] checkpoint_eq
  by (auto simp: orderly_def resolve_def)

lemma orderly_settle_checkpoint:
  assumes "orderly s"
  shows "orderly (checkpoint (settle i f s))"
proof (cases "i < length (futures s) \<and> futures s ! i = Pending")
  case False
  then have "settle i f s = s" by (auto simp: settle_def)
  with assms show ?thesis by (auto simp: checkpoint_eq orderly_def)
next
  case True
  then have "\<not> list_all settled (futures s)"
    by (auto simp: list_all_length)
  with assms have w: "watching s" by (simp add: orderly_def)
  from assms w show ?thesis
    by (auto simp: checkpoint_eq orderly_def resolve_def)
qed

lemma orderly_deliver: "orderly s \<Longrightarrow> orderly (deliver s ev)"
proof (cases ev)
  case TimerFires
  assume "orderly s"
  then show ?thesis unfolding TimerFires
    by (auto simp: orderly_def timer_callback_def resolve_def)
qed (simp_all add: orderly_settle_checkpoint)

lemma orderly_foldl: "orderly s \<Longrightarrow> orderly (foldl deliver s evs)"
  by (induction evs arbitrary: s) (simp_all add: orderly_deliver)

lemma orderly_after_events:
  "\<forall>p \<in> set (taskProducers b). invoke p = Returns \<Longrightarrow>
     orderly (after_events (fst (drain invoke b t)) evs)"
  by (simp add: after_events_def orderly_foldl orderly_checkpoint_start)

lemma all_settled_resolved:
  assumes "orderly s" "list_all settled (futures s)"
  shows "result s = Fulfilled True \<or> result s = Fulfilled False"
proof -
  from assms have "result s \<noteq> Pending" "\<forall>e. result s \<noteq> Rejected e"
    by (auto simp: orderly_def)
  then show ?thesis by (cases "result s") auto
qed

lemma true_only_settled_deliver:
  assumes "result s = Fulfilled True \<longrightarrow> list_all settled (futures s)"
  shows "result (deliver s ev) = Fulfilled True \<longrightarrow> list_all settled (futures (deliver s ev))"
proof (cases "result s = Pending")
  case False
  then have r: "result (deliver s ev) = result s" by (rule result_sticky)
  show ?thesis
  proof
    assume "result (deliver s ev) = Fulfilled True"
    with r assms have a: "list_all settled (futures s)" by simp
    then have "futures (deliver s ev) = futures s"
      by (cases ev) (simp_all add: settle_keeps_settled timer_callback_def resolve_def)
    with a show "list_all settled (futures (deliver s ev))" by simp
  qed
next
  case True
  then show ?thesis
    by (cases ev) (auto simp: timer_callback_def resolve_def checkpoint_eq)
qed

lemma checkpoint_true_only_settled:
  "result s \<noteq> Fulfilled True \<Longrightarrow>
     result (checkpoint s) = Fulfilled True \<longrightarrow> list_all settled (futures (checkpoint s))"
  by (auto simp: checkpoint_eq resolve_def)

lemma true_only_settled_foldl:
  "result s = Fulfilled True \<longrightarrow> list_all settled (futures s) \<Longrightarrow>
     result (foldl deliver s evs) = Fulfilled True \<longrightarrow>
       list_all settled (futures (foldl deliver s evs))"
proof (induction evs arbitrary: s)
  case Nil
  then show ?case by simp
next
  case (Cons ev evs)
  from Cons.IH [OF true_only_settled_deliver [OF Cons.prems]] show ?case by simp
qed

lemma true_only_settled:
  "result (after_events (fst (drain invoke b t)) evs) = Fulfilled True \<Longrightarrow>
     list_all settled (futures (after_events (fst (drain invoke b t)) evs))"
  using true_only_settled_foldl [OF checkpoint_true_only_settled, of "fst (drain invoke b t)" evs]
  by (simp add: after_events_def)

lemma false_needs_timer_deliver:
  "result s \<noteq> Fulfilled False \<Longrightarrow> ev \<noteq> TimerFires \<or> \<not> effective (timeout s) \<Longrightarrow>
     result (deliver s ev) \<noteq> Fulfilled False"
  by (cases ev) (auto simp: timer_callback_def resolve_def checkpoint_eq effective_def)

lemma false_needs_timer_foldl:
  "result s \<noteq> Fulfilled False \<Longrightarrow> TimerFires \<notin> set evs \<or> \<not> effective (timeout s) \<Longrightarrow>
     result (foldl deliver s evs) \<noteq> Fulfilled False"
proof (induction evs arbitrary: s)
  case Nil
  then show ?case by simp
next
  case (Cons ev evs)
  from Cons.prems have "result (deliver s ev) \<noteq> Fulfilled False"
    by (intro false_needs_timer_deliver) auto
  moreover from Cons.prems
  have "TimerFires \<notin> set evs \<or> \<not> effective (timeout (deliver s ev))" by auto
  ultimately show ?case using Cons.IH by simp
qed

lemma false_needs_timer:
  assumes "TimerFires \<notin> set evs \<or> \<not> effective t"
  shows "result (after_events (fst (drain invoke b t)) evs) \<noteq> Fulfilled False"
proof -
  have "result (checkpoint (fst (drain invoke b t))) \<noteq> Fulfilled False"
    by (auto simp: checkpoint_eq resolve_def)
  moreover have "timeout (checkpoint (fst (drain invoke b t))) = t" by simp
  ultimately show ?thesis using assms
    unfolding after_events_def by (intro false_needs_timer_foldl) auto
qed

lemma timer_kept_deliver:
  "timer s = watching s \<Longrightarrow> ev \<noteq> TimerFires \<Longrightarrow> timer (deliver s ev) = watching (deliver s ev)"
  by (cases ev) (auto simp: checkpoint_eq resolve_def)

lemma timer_kept_foldl:
  "timer s = watching s \<Longrightarrow> TimerFires \<notin> set evs \<Longrightarrow>
     timer (foldl deliver s evs) = watching (foldl deliver s evs)"
proof (induction evs arbitrary: s)
  case Nil
  then show ?case by simp
next
  case (Cons ev evs)
  from Cons.prems have "timer (deliver s ev) = watching (deliver s ev)"
    by (intro timer_kept_deliver) auto
  with Cons show ?case by simp
qed

lemma timer_kept:
  assumes "\<forall>p \<in> set (taskProducers b). invoke p = Returns" "TimerFires \<notin> set evs"
  shows "timer (after_events (fst (drain invoke b t)) evs)
       = watching (after_events (fst (drain invoke b t)) evs)"
proof -
  have "timer (checkpoint (fst (drain invoke b t))) = watching (checkpoint (fst (drain invoke b t)))"
    unfolding drain_no_throw [OF assms(1)] checkpoint_eq by (simp add: resolve_def)
  then show ?thesis unfolding after_events_def using assms(2) by (rule timer_kept_foldl)
qed

text \<open>
  When the promise of a drain is \<open>false\<close>: exactly when the timeout is effective and the timer
  event came at a moment when some future was still pending.
\<close>

lemma after_events_append:
  "after_events ep (evs @ later) = foldl deliver (after_events ep evs) later"
  by (simp add: after_events_def)

lemma armed_deliver:
  assumes "effective (timeout s) \<longrightarrow> watching s \<longrightarrow> result s = Pending \<longrightarrow> timer s"
  shows "effective (timeout (deliver s ev)) \<longrightarrow> watching (deliver s ev) \<longrightarrow>
           result (deliver s ev) = Pending \<longrightarrow> timer (deliver s ev)"
  using assms
  by (cases ev) (auto simp: timer_callback_def resolve_def checkpoint_eq effective_def
      split: if_splits)

lemma armed_foldl:
  "effective (timeout s) \<longrightarrow> watching s \<longrightarrow> result s = Pending \<longrightarrow> timer s \<Longrightarrow>
     effective (timeout (foldl deliver s evs)) \<longrightarrow> watching (foldl deliver s evs) \<longrightarrow>
       result (foldl deliver s evs) = Pending \<longrightarrow> timer (foldl deliver s evs)"
proof (induction evs arbitrary: s)
  case Nil
  then show ?case by simp
next
  case (Cons ev evs)
  from Cons.IH [OF armed_deliver [OF Cons.prems]] show ?case by simp
qed

lemma armed_after_events:
  assumes "\<forall>p \<in> set (taskProducers b). invoke p = Returns"
    and "effective t"
    and "watching (after_events (fst (drain invoke b t)) evs)"
    and "result (after_events (fst (drain invoke b t)) evs) = Pending"
  shows "timer (after_events (fst (drain invoke b t)) evs)"
proof -
  let ?c = "checkpoint (fst (drain invoke b t))"
  have "effective (timeout ?c) \<longrightarrow> watching ?c \<longrightarrow> result ?c = Pending \<longrightarrow> timer ?c"
    unfolding drain_no_throw [OF assms(1)] checkpoint_eq by (simp add: resolve_def)
  from armed_foldl [OF this, of evs] assms(2-4) show ?thesis
    by (simp add: after_events_def)
qed

lemma false_step:
  assumes "orderly s"
    and "effective (timeout s) \<longrightarrow> watching s \<longrightarrow> result s = Pending \<longrightarrow> timer s"
  shows "(result (deliver s ev) = Fulfilled False) =
           (result s = Fulfilled False \<or>
            (ev = TimerFires \<and> effective (timeout s) \<and> \<not> list_all settled (futures s)))"
proof (cases "result s = Pending")
  case False
  then have "result (deliver s ev) = result s" by (rule result_sticky)
  moreover have "list_all settled (futures s)" if "result s \<noteq> Fulfilled False"
  proof -
    from False assms(1) that have "result s = Fulfilled True"
      by (cases "result s") (auto simp: orderly_def)
    with assms(1) show ?thesis by (auto simp: orderly_def)
  qed
  ultimately show ?thesis by auto
next
  case True
  with assms(1) have w: "watching s = (\<not> list_all settled (futures s))" "watching s"
    by (auto simp: orderly_def)
  show ?thesis
  proof (cases ev)
    case TimerFires
    with True w assms(2) show ?thesis
      by (auto simp: timer_callback_def resolve_def effective_def)
  next
    case (Fulfils i r)
    with True show ?thesis by (auto simp: checkpoint_eq resolve_def)
  next
    case (Rejects i e)
    with True show ?thesis by (auto simp: checkpoint_eq resolve_def)
  qed
qed

lemma split_snoc:
  "(\<exists>before after. evs @ [ev] = before @ TimerFires # after \<and> Q before) =
     ((\<exists>before after. evs = before @ TimerFires # after \<and> Q before) \<or>
      (ev = TimerFires \<and> Q evs))"
proof
  assume "\<exists>before after. evs @ [ev] = before @ TimerFires # after \<and> Q before"
  then obtain before after where e: "evs @ [ev] = before @ TimerFires # after" and q: "Q before"
    by blast
  show "(\<exists>before after. evs = before @ TimerFires # after \<and> Q before) \<or>
      (ev = TimerFires \<and> Q evs)"
  proof (cases after rule: rev_cases)
    case Nil
    with e have "evs = before" "ev = TimerFires" by simp_all
    with q show ?thesis by simp
  next
    case (snoc rest x)
    with e have "evs @ [ev] = (before @ TimerFires # rest) @ [x]" by simp
    then have "evs = before @ TimerFires # rest" by (simp only: append1_eq_conv)
    with q show ?thesis by blast
  qed
next
  assume "(\<exists>before after. evs = before @ TimerFires # after \<and> Q before) \<or>
      (ev = TimerFires \<and> Q evs)"
  then show "\<exists>before after. evs @ [ev] = before @ TimerFires # after \<and> Q before"
  proof
    assume "\<exists>before after. evs = before @ TimerFires # after \<and> Q before"
    then obtain before after where "evs = before @ TimerFires # after" "Q before" by blast
    then have "evs @ [ev] = before @ TimerFires # (after @ [ev]) \<and> Q before" by simp
    then show ?thesis by blast
  next
    assume "ev = TimerFires \<and> Q evs"
    then have "evs @ [ev] = evs @ TimerFires # [] \<and> Q evs" by simp
    then show ?thesis by blast
  qed
qed

lemma false_iff_timer_before_last:
  assumes "\<forall>p \<in> set (taskProducers b). invoke p = Returns"
  shows "(result (after_events (fst (drain invoke b t)) evs) = Fulfilled False) =
           (effective t \<and>
            (\<exists>before after. evs = before @ TimerFires # after \<and>
               \<not> list_all settled (futures (after_events (fst (drain invoke b t)) before))))"
proof (induction evs rule: rev_induct)
  case Nil
  have "result (after_events (fst (drain invoke b t)) []) \<noteq> Fulfilled False"
    by (rule false_needs_timer) simp
  then show ?case by simp
next
  case (snoc ev evs)
  let ?ep = "fst (drain invoke b t)"
  let ?s = "after_events ?ep evs"
  have o: "orderly ?s" using assms by (rule orderly_after_events)
  have a: "effective (timeout ?s) \<longrightarrow> watching ?s \<longrightarrow> result ?s = Pending \<longrightarrow> timer ?s"
    using armed_after_events [OF assms] by simp
  have "(result (after_events ?ep (evs @ [ev])) = Fulfilled False) =
          (result ?s = Fulfilled False \<or>
            (ev = TimerFires \<and> effective t \<and> \<not> list_all settled (futures ?s)))"
    unfolding after_events_snoc using false_step [OF o a, of ev] by simp
  also have "\<dots> = (effective t \<and>
      ((\<exists>before after. evs = before @ TimerFires # after \<and>
               \<not> list_all settled (futures (after_events ?ep before))) \<or>
       (ev = TimerFires \<and> \<not> list_all settled (futures ?s))))"
    unfolding snoc.IH by blast
  also have "\<dots> = (effective t \<and>
      (\<exists>before after. evs @ [ev] = before @ TimerFires # after \<and>
               \<not> list_all settled (futures (after_events ?ep before))))"
    by (simp only: split_snoc [where Q = "\<lambda>before. \<not> list_all settled (futures (after_events ?ep before))"])
  finally show ?case .
qed

text \<open>
  Unfolding sets for evaluating the model on concrete inputs.
\<close>

lemmas run_simps = drain_def after_events_def checkpoint_def all_callback_def resolve_def
  settle_def timer_callback_def effective_def Let_def

lemmas world_simps = perform_all_def new_world_def new_buffer_def add_def drain_def

text \<open>
  Why the properties of a drain below assume that every producer call returns a future: a
  call that throws ends the \<open>map\<close> in the executor, the producers after it are never called,
  and the promise returned by \<open>drain\<close> is rejected with the error.
\<close>

lemma throwing_call_rejects:
  "started (fst (drain (\<lambda>p. if p = ''bad'' then Throws (OtherError ''boom'') else Returns)
        \<lparr> dollar = [], taskProducers = [''ok'', ''bad'', ''late''], bufferSize = Num 30 \<rparr> None))
     = [''ok'', ''bad'']
   \<and> result (after_events (fst (drain (\<lambda>p. if p = ''bad'' then Throws (OtherError ''boom'') else Returns)
        \<lparr> dollar = [], taskProducers = [''ok'', ''bad'', ''late''], bufferSize = Num 30 \<rparr> None))
        [Fulfils 0 \<lparr> statusCode = 200, headers = Map.empty \<rparr>, TimerFires])
     = Rejected (OtherError ''boom'')"
  by (simp add: run_simps)

section \<open>The claims\<close>

subsection \<open>C1: the request options\<close>




subsection \<open>C2: add at capacity\<close>

text \<open>
  C2: when the pending list holds at least \<open>bufferSize\<close> entries, \<open>add\<close> returns a promise
  rejected with the buffer-limit \<open>SentryError\<close> and the buffer is unchanged; a buffer constructed
  without a capacity has capacity 30.
\<close>

theorem add_at_capacity_rejects:
  assumes "length_ge (length (taskProducers b)) (bufferSize b)"
  shows "add b producer = (Rejected (SentryError buffer_limit_message), b)
       \<and> bufferSize (new_buffer None :: 'p IsolatedPromiseBuffer) = Num 30"
  using assms by (simp add: add_def new_buffer_def DEFAULT_TRANSPORT_BUFFER_SIZE_def)

theorem add_at_capacity_rejects_witness:
  "length_ge (length (taskProducers \<lparr> dollar = [], taskProducers = [''a'', ''b''], bufferSize = Num 2 \<rparr>))
      (bufferSize \<lparr> dollar = [], taskProducers = [''a'', ''b''], bufferSize = Num 2 \<rparr>)
   \<and> add \<lparr> dollar = [], taskProducers = [''a'', ''b''], bufferSize = Num 2 \<rparr> ''c''
       = (Rejected (SentryError buffer_limit_message),
          \<lparr> dollar = [], taskProducers = [''a'', ''b''], bufferSize = Num 2 \<rparr>)"
proof -
  let ?b = "\<lparr> dollar = [], taskProducers = [''a'', ''b''], bufferSize = Num 2 \<rparr>"
  have full: "length_ge (length (taskProducers ?b)) (bufferSize ?b)"
    by simp
  have "add ?b ''c'' = (Rejected (SentryError buffer_limit_message), ?b)"
    using add_at_capacity_rejects [OF full, of "''c''"] by (rule conjunct1)
  with full show ?thesis by (rule conjI)
qed

subsection \<open>C3: drain swallows failures\<close>

text \<open>
  C3 as stated: once all detached producers have settled, drain resolves to \<open>true\<close>. With a
  positive timeout whose timer fires before the producer settles, the promise has resolved to
  \<open>false\<close> and stays so after the producer has settled.
\<close>

theorem drain_resolves_true_counterexample:
  "list_all settled (futures (after_events (fst (drain (\<lambda>p. Returns)
        \<lparr> dollar = [], taskProducers = [''slow''], bufferSize = Num 30 \<rparr> (Some (Num 5))))
      [TimerFires, Fulfils 0 \<lparr> statusCode = 200, headers = Map.empty \<rparr>]))
   \<and> result (after_events (fst (drain (\<lambda>p. Returns)
        \<lparr> dollar = [], taskProducers = [''slow''], bufferSize = Num 30 \<rparr> (Some (Num 5))))
      [TimerFires, Fulfils 0 \<lparr> statusCode = 200, headers = Map.empty \<rparr>])
     = Fulfilled False"
  by (simp add: run_simps)

text \<open>
  C3, amended: when every detached producer returns a future, the promise returned by
  \<open>drain\<close> is never rejected, whatever events occur and however many futures are rejected.
  Once all futures have settled it is resolved: to \<open>true\<close>, unless \<open>drain\<close> was called with a
  positive timeout (the guard \<open>timeout && timeout > 0\<close>) and the timer fired before the last
  future settled; in that case, and only in that case, it has resolved to \<open>false\<close>, and it
  stays \<open>false\<close> under every later event.
\<close>

theorem drain_never_rejects:
  assumes "\<forall>p \<in> set (taskProducers b). invoke p = Returns"
  shows "(let ep = fst (drain invoke b t);
              s = after_events ep evs;
              early = (effective t \<and>
                (\<exists>before after. evs = before @ TimerFires # after \<and>
                   \<not> list_all settled (futures (after_events ep before))))
          in (\<forall>e. result s \<noteq> Rejected e)
           \<and> (list_all settled (futures s) \<longrightarrow> result s = Fulfilled (\<not> early))
           \<and> (result s = Fulfilled False) = early
           \<and> (early \<longrightarrow> result (after_events ep (evs @ later)) = Fulfilled False))"
proof -
  let ?ep = "fst (drain invoke b t)"
  let ?s = "after_events ?ep evs"
  let ?early = "effective t \<and>
                (\<exists>before after. evs = before @ TimerFires # after \<and>
                   \<not> list_all settled (futures (after_events ?ep before)))"
  have o: "orderly ?s" using assms by (rule orderly_after_events)
  then have never: "\<forall>e. result ?s \<noteq> Rejected e" by (simp add: orderly_def)
  have iff: "(result ?s = Fulfilled False) = ?early"
    using assms by (rule false_iff_timer_before_last)
  have once: "result ?s = Fulfilled (\<not> ?early)" if "list_all settled (futures ?s)"
  proof (cases ?early)
    case True
    with iff show ?thesis by simp
  next
    case False
    with iff have "result ?s \<noteq> Fulfilled False" by simp
    with all_settled_resolved [OF o that] have "result ?s = Fulfilled True" by blast
    with False show ?thesis by simp
  qed
  have stays: "result (after_events ?ep (evs @ later)) = Fulfilled False" if ?early
  proof -
    from that iff have "result ?s = Fulfilled False" by simp
    then show ?thesis by (simp add: after_events_append result_sticky_foldl)
  qed
  from never once iff stays show ?thesis unfolding Let_def by blast
qed

theorem drain_never_rejects_witness:
  "result (after_events (fst (drain (\<lambda>p. Returns)
        \<lparr> dollar = [], taskProducers = [''p0'', ''p1''], bufferSize = Num 30 \<rparr> (Some (Num 5))))
      [Rejects 1 (OtherError ''network''), Rejects 0 (OtherError ''network''), TimerFires])
     = Fulfilled True
   \<and> result (after_events (fst (drain (\<lambda>p. Returns)
        \<lparr> dollar = [], taskProducers = [''p0'', ''p1''], bufferSize = Num 30 \<rparr> (Some (Num 5))))
      [Rejects 1 (OtherError ''network''), TimerFires, Rejects 0 (OtherError ''network'')])
     = Fulfilled False
   \<and> result (after_events (fst (drain (\<lambda>p. Returns)
        \<lparr> dollar = [], taskProducers = [''p0'', ''p1''], bufferSize = Num 30 \<rparr> (Some (Num 5))))
      ([Rejects 1 (OtherError ''network''), TimerFires, Rejects 0 (OtherError ''network'')]
        @ [TimerFires]))
     = Fulfilled False"
proof -
  let ?b = "\<lparr> dollar = [], taskProducers = [''p0'', ''p1''], bufferSize = Num 30 \<rparr>"
  let ?ep = "fst (drain (\<lambda>p. Returns) ?b (Some (Num 5)))"
  let ?r0 = "Rejects 0 (OtherError ''network'')"
  let ?r1 = "Rejects 1 (OtherError ''network'')"
  have r: "\<forall>p \<in> set (taskProducers ?b). (\<lambda>p. Returns) p = Returns" by simp
  have eff: "effective (Some (Num 5))" by (simp add: effective_def)
  have late: "\<not> (effective (Some (Num 5)) \<and>
      (\<exists>before after. [?r1, ?r0, TimerFires] = before @ TimerFires # after \<and>
         \<not> list_all settled (futures (after_events ?ep before))))"
  proof
    assume "effective (Some (Num 5)) \<and>
      (\<exists>before after. [?r1, ?r0, TimerFires] = before @ TimerFires # after \<and>
         \<not> list_all settled (futures (after_events ?ep before)))"
    then obtain before after where e: "[?r1, ?r0, TimerFires] = before @ TimerFires # after"
      and n: "\<not> list_all settled (futures (after_events ?ep before))" by blast
    from e have "before = [?r1, ?r0]"
      by (auto simp: Cons_eq_append_conv)
    with n show False by (simp add: run_simps)
  qed
  have doneA: "list_all settled (futures (after_events ?ep [?r1, ?r0, TimerFires]))"
    by (simp add: run_simps)
  have g1: "result (after_events ?ep [?r1, ?r0, TimerFires]) = Fulfilled True"
    using drain_never_rejects [OF r, of "Some (Num 5)" "[?r1, ?r0, TimerFires]" "[]"] late doneA
    unfolding Let_def by simp
  have "[?r1, TimerFires, ?r0] = [?r1] @ TimerFires # [?r0] \<and>
      \<not> list_all settled (futures (after_events ?ep [?r1]))"
    by (simp add: run_simps)
  then have early: "effective (Some (Num 5)) \<and>
      (\<exists>before after. [?r1, TimerFires, ?r0] = before @ TimerFires # after \<and>
         \<not> list_all settled (futures (after_events ?ep before)))"
    using eff by blast
  note inst = drain_never_rejects [OF r, of "Some (Num 5)" "[?r1, TimerFires, ?r0]" "[TimerFires]"]
  have g2: "result (after_events ?ep [?r1, TimerFires, ?r0]) = Fulfilled False"
    using inst early unfolding Let_def by blast
  have g3: "result (after_events ?ep ([?r1, TimerFires, ?r0] @ [TimerFires])) = Fulfilled False"
    using inst early unfolding Let_def by blast
  from g1 g2 g3 show ?thesis by (intro conjI)
qed

subsection \<open>C4: drain detaches the pending list\<close>

text \<open>
  C4: \<open>drain\<close> leaves the buffer with an empty pending list and the same capacity; the
  producers it calls are a prefix of the list that was pending (the whole list unless a call
  throws), and no later event makes it call another. After the drain, up to capacity many
  \<open>add\<close> calls all return fulfilled promises and fill the new list, while the drain started
  is untouched by them and no producer is called.
\<close>

theorem drain_detaches_pending:
  "taskProducers (snd (drain invoke b t)) = []
   \<and> bufferSize (snd (drain invoke b t)) = bufferSize b
   \<and> prefix (started (fst (drain invoke b t))) (taskProducers b)
   \<and> started (after_events (fst (drain invoke b t)) evs) = started (fst (drain invoke b t))
   \<and> (bufferSize (buffer w) = Num c \<and> real (length ps) \<le> c \<longrightarrow>
        (let w1 = perform invoke w (Drain t);
             w2 = perform_all invoke w1 (map Add ps)
         in taskProducers (buffer w1) = []
          \<and> episodes w1 = episodes w @ [fst (drain invoke (buffer w) t)]
          \<and> added w2 = added w @ replicate (length ps) (Fulfilled ())
          \<and> taskProducers (buffer w2) = ps
          \<and> calls w2 = calls w1
          \<and> episodes w2 = episodes w1))"
proof -
  have later: "let w1 = perform invoke w (Drain t);
             w2 = perform_all invoke w1 (map Add ps)
         in taskProducers (buffer w1) = []
          \<and> episodes w1 = episodes w @ [fst (drain invoke (buffer w) t)]
          \<and> added w2 = added w @ replicate (length ps) (Fulfilled ())
          \<and> taskProducers (buffer w2) = ps
          \<and> calls w2 = calls w1
          \<and> episodes w2 = episodes w1"
    if c: "bufferSize (buffer w) = Num c" "real (length ps) \<le> c"
  proof -
    define w1 where "w1 = perform invoke w (Drain t)"
    have b1: "buffer w1 = (buffer w)\<lparr>taskProducers := []\<rparr>"
      and e1: "episodes w1 = episodes w @ [fst (drain invoke (buffer w) t)]"
      and a1: "added w1 = added w"
      unfolding w1_def perform_drain by simp_all
    have "perform_all invoke w1 (map Add ps) =
           w1\<lparr>buffer := (buffer w1)\<lparr>taskProducers := taskProducers (buffer w1) @ ps\<rparr>,
              added := added w1 @ replicate (length ps) (Fulfilled ())\<rparr>"
      using c by (intro adds_fit [where c = c]) (simp_all add: b1)
    then have "added (perform_all invoke w1 (map Add ps))
          = added w @ replicate (length ps) (Fulfilled ())"
      and "taskProducers (buffer (perform_all invoke w1 (map Add ps))) = ps"
      and "calls (perform_all invoke w1 (map Add ps)) = calls w1"
      and "episodes (perform_all invoke w1 (map Add ps)) = episodes w1"
      by (simp_all add: b1 a1)
    with b1 e1 show ?thesis unfolding Let_def w1_def [symmetric] by simp
  qed
  show ?thesis using later by (simp add: drain_buffer drain_prefix)
qed

theorem drain_detaches_pending_witness:
  "bufferSize (buffer (perform_all (\<lambda>p. Returns) (new_world (Some (Num 2)))
        [Add ''a'', Add ''b''])) = Num 2
   \<and> real (length [''c'', ''d'']) \<le> 2
   \<and> taskProducers (buffer (perform_all (\<lambda>p. Returns) (new_world (Some (Num 2)))
        [Add ''a'', Add ''b'', Drain None])) = []
   \<and> map started (episodes (perform_all (\<lambda>p. Returns) (new_world (Some (Num 2)))
        [Add ''a'', Add ''b'', Drain None, Add ''c'', Add ''d''])) = [[''a'', ''b'']]
   \<and> map result (episodes (perform_all (\<lambda>p. Returns) (new_world (Some (Num 2)))
        [Add ''a'', Add ''b'', Drain None, Add ''c'', Add ''d''])) = [Pending]
   \<and> added (perform_all (\<lambda>p. Returns) (new_world (Some (Num 2)))
        [Add ''a'', Add ''b'', Drain None, Add ''c'', Add ''d''])
       = [Fulfilled (), Fulfilled (), Fulfilled (), Fulfilled ()]
   \<and> taskProducers (buffer (perform_all (\<lambda>p. Returns) (new_world (Some (Num 2)))
        [Add ''a'', Add ''b'', Drain None, Add ''c'', Add ''d''])) = [''c'', ''d'']"
proof -
  let ?inv = "\<lambda>p::string. Returns"
  define w where "w = perform_all ?inv (new_world (Some (Num 2))) [Add ''a'', Add ''b'']"
  have w: "w = \<lparr> buffer = \<lparr> dollar = [], taskProducers = [''a'', ''b''], bufferSize = Num 2 \<rparr>,
                 added = [Fulfilled (), Fulfilled ()], calls = [], episodes = [] \<rparr>"
    unfolding w_def by (simp add: world_simps)
  have cap: "bufferSize (buffer w) = Num 2 \<and> real (length [''c'', ''d'']) \<le> 2"
    by (simp add: w)
  have split3: "perform_all ?inv (new_world (Some (Num 2))) [Add ''a'', Add ''b'', Drain None]
      = perform ?inv w (Drain None)"
    unfolding w_def by (simp only: perform_all_def foldl_Cons foldl_Nil)
  have split5: "perform_all ?inv (new_world (Some (Num 2)))
        [Add ''a'', Add ''b'', Drain None, Add ''c'', Add ''d'']
      = perform_all ?inv (perform ?inv w (Drain None)) (map Add [''c'', ''d''])"
    unfolding w_def by (simp only: perform_all_def foldl_Cons foldl_Nil list.map)
  from drain_detaches_pending [of ?inv "buffer w" None "[]" w 2 "[''c'', ''d'']"] cap
  have inst: "taskProducers (buffer (perform ?inv w (Drain None))) = []
      \<and> episodes (perform ?inv w (Drain None)) = episodes w @ [fst (drain ?inv (buffer w) None)]
      \<and> added (perform_all ?inv (perform ?inv w (Drain None)) (map Add [''c'', ''d'']))
          = added w @ replicate (length [''c'', ''d'']) (Fulfilled ())
      \<and> taskProducers (buffer (perform_all ?inv (perform ?inv w (Drain None))
          (map Add [''c'', ''d'']))) = [''c'', ''d'']
      \<and> calls (perform_all ?inv (perform ?inv w (Drain None)) (map Add [''c'', ''d'']))
          = calls (perform ?inv w (Drain None))
      \<and> episodes (perform_all ?inv (perform ?inv w (Drain None)) (map Add [''c'', ''d'']))
          = episodes (perform ?inv w (Drain None))"
    unfolding Let_def by blast
  have ep: "fst (drain ?inv (buffer w) None)
      = \<lparr> started = [''a'', ''b''], futures = [Pending, Pending], timeout = None,
          timer = True, watching = True, result = Pending \<rparr>"
    by (simp add: w drain_def)
  have g1: "taskProducers (buffer (perform_all ?inv (new_world (Some (Num 2)))
        [Add ''a'', Add ''b'', Drain None])) = []"
    unfolding split3 using inst by blast
  have eps: "episodes (perform_all ?inv (new_world (Some (Num 2)))
        [Add ''a'', Add ''b'', Drain None, Add ''c'', Add ''d''])
      = episodes w @ [fst (drain ?inv (buffer w) None)]"
    unfolding split5 using inst by simp
  have g2: "map started (episodes (perform_all ?inv (new_world (Some (Num 2)))
        [Add ''a'', Add ''b'', Drain None, Add ''c'', Add ''d''])) = [[''a'', ''b'']]"
    unfolding eps ep by (simp add: w)
  have g3: "map result (episodes (perform_all ?inv (new_world (Some (Num 2)))
        [Add ''a'', Add ''b'', Drain None, Add ''c'', Add ''d''])) = [Pending]"
    unfolding eps ep by (simp add: w)
  have ad: "added (perform_all ?inv (new_world (Some (Num 2)))
        [Add ''a'', Add ''b'', Drain None, Add ''c'', Add ''d''])
       = added w @ replicate (length [''c'', ''d'']) (Fulfilled ())"
    unfolding split5 using inst by blast
  have g4: "added (perform_all ?inv (new_world (Some (Num 2)))
        [Add ''a'', Add ''b'', Drain None, Add ''c'', Add ''d''])
       = [Fulfilled (), Fulfilled (), Fulfilled (), Fulfilled ()]"
    unfolding ad by (simp add: w)
  have g5: "taskProducers (buffer (perform_all ?inv (new_world (Some (Num 2)))
        [Add ''a'', Add ''b'', Drain None, Add ''c'', Add ''d''])) = [''c'', ''d'']"
    unfolding split5 using inst by blast
  from cap have c1: "bufferSize (buffer (perform_all ?inv (new_world (Some (Num 2)))
        [Add ''a'', Add ''b''])) = Num 2" and c2: "real (length [''c'', ''d'']) \<le> 2"
    unfolding w_def by blast+
  from c1 c2 g1 g2 g3 g4 g5 show ?thesis by (intro conjI)
qed

subsection \<open>C5: drain without an effective timeout\<close>

text \<open>
  C5: when the timeout is absent, zero or otherwise not positive, the promise returned by
  \<open>drain\<close> never resolves to \<open>false\<close>; it is resolved to \<open>true\<close> only when all futures have
  settled, and, when every producer returned a future, it is resolved to \<open>true\<close> as soon as
  they all have.
\<close>

theorem drain_without_timeout:
  assumes "t = None \<or> (t = Some n \<and> non_positive n)"
  shows "(let s = after_events (fst (drain invoke b t)) evs in
           result s \<noteq> Fulfilled False
         \<and> (result s = Fulfilled True \<longrightarrow> list_all settled (futures s))
         \<and> ((\<forall>p \<in> set (taskProducers b). invoke p = Returns) \<and> list_all settled (futures s)
              \<longrightarrow> result s = Fulfilled True))"
proof -
  let ?s = "after_events (fst (drain invoke b t)) evs"
  from assms have ne: "\<not> effective t"
    using non_positive_not_effective by (auto simp: effective_def)
  then have a: "result ?s \<noteq> Fulfilled False" by (intro false_needs_timer) simp
  have b: "result ?s = Fulfilled True \<longrightarrow> list_all settled (futures ?s)"
    using true_only_settled by blast
  have c: "result ?s = Fulfilled True"
    if "\<forall>p \<in> set (taskProducers b). invoke p = Returns" "list_all settled (futures ?s)"
    using all_settled_resolved [OF orderly_after_events [OF that(1)] that(2)] a by blast
  from a b c show ?thesis by (simp add: Let_def)
qed

theorem drain_without_timeout_witness:
  "non_positive (Num 0)
   \<and> result (after_events (fst (drain (\<lambda>p. Returns)
        \<lparr> dollar = [], taskProducers = [''p0''], bufferSize = Num 30 \<rparr> (Some (Num 0))))
      [TimerFires]) = Pending
   \<and> list_all settled (futures (after_events (fst (drain (\<lambda>p. Returns)
        \<lparr> dollar = [], taskProducers = [''p0''], bufferSize = Num 30 \<rparr> (Some (Num 0))))
      [TimerFires, Rejects 0 (OtherError ''network'')]))
   \<and> result (after_events (fst (drain (\<lambda>p. Returns)
        \<lparr> dollar = [], taskProducers = [''p0''], bufferSize = Num 30 \<rparr> (Some (Num 0))))
      [TimerFires, Rejects 0 (OtherError ''network'')]) = Fulfilled True"
proof -
  let ?b = "\<lparr> dollar = [], taskProducers = [''p0''], bufferSize = Num 30 \<rparr>"
  let ?ep = "fst (drain (\<lambda>p. Returns) ?b (Some (Num 0)))"
  let ?evs = "[TimerFires, Rejects 0 (OtherError ''network'')]"
  have z: "Some (Num 0) = None \<or> (Some (Num 0) = Some (Num 0) \<and> non_positive (Num 0))"
    by simp
  have r: "\<forall>p \<in> set (taskProducers ?b). (\<lambda>p. Returns) p = Returns" by simp
  have f: "list_all settled (futures (after_events ?ep ?evs))"
    by (simp add: run_simps)
  have p: "result (after_events ?ep [TimerFires]) = Pending"
    by (simp add: run_simps)
  have "result (after_events ?ep ?evs) = Fulfilled True"
    using drain_without_timeout [OF z, of "\<lambda>p. Returns" ?b ?evs] r f
    by (simp add: Let_def)
  with p f show ?thesis by simp
qed

subsection \<open>C6: drain with a positive timeout\<close>

text \<open>
  C6: with a positive timeout, when the timer fires while a future is still pending, the
  promise returned by \<open>drain\<close> (pending until then) resolves to \<open>false\<close> and stays so under
  every later event. The timer leaves the futures as they are, and the pending future still
  takes its fulfilment or rejection afterwards.
\<close>

theorem drain_times_out:
  assumes "\<forall>p \<in> set (taskProducers b). invoke p = Returns"
    and "positive n"
    and "TimerFires \<notin> set evs"
    and "i < length (futures (after_events (fst (drain invoke b (Some n))) evs))"
    and "futures (after_events (fst (drain invoke b (Some n))) evs) ! i = Pending"
  shows "(let ep = fst (drain invoke b (Some n)) in
           result (after_events ep evs) = Pending
         \<and> result (after_events ep (evs @ [TimerFires])) = Fulfilled False
         \<and> result (after_events ep (evs @ TimerFires # later)) = Fulfilled False
         \<and> futures (after_events ep (evs @ [TimerFires])) = futures (after_events ep evs)
         \<and> futures (after_events ep (evs @ [TimerFires, Fulfils i r])) ! i = Fulfilled r
         \<and> futures (after_events ep (evs @ [TimerFires, Rejects i e])) ! i = Rejected e)"
proof -
  let ?ep = "fst (drain invoke b (Some n))"
  let ?s = "after_events ?ep evs"
  let ?s' = "after_events ?ep (evs @ [TimerFires])"
  have o: "orderly ?s" using assms(1) by (rule orderly_after_events)
  from assms(4,5) have "\<not> list_all settled (futures ?s)"
    by (auto simp: list_all_length)
  with o have w: "watching ?s" by (simp add: orderly_def)
  with timer_kept [OF assms(1,3)] have tm: "timer ?s" by simp
  with o have pend: "result ?s = Pending" by (simp add: orderly_def)
  from positive_effective [OF assms(2)] have eff: "truthy n \<and> positive n"
    by (simp add: effective_def)
  have s': "?s' = deliver ?s TimerFires" by (rule after_events_snoc)
  have fired: "result ?s' = Fulfilled False"
    unfolding s' using tm pend eff by (simp add: timer_callback_def resolve_def)
  have "after_events ?ep (evs @ TimerFires # later) = foldl deliver ?s' later"
    by (simp add: after_events_def)
  then have stays: "result (after_events ?ep (evs @ TimerFires # later)) = Fulfilled False"
    using fired by (simp add: result_sticky_foldl)
  have same: "futures ?s' = futures ?s"
    unfolding s' by (rule deliver_timer_futures)
  have "after_events ?ep (evs @ [TimerFires, Fulfils i r]) = deliver ?s' (Fulfils i r)"
    by (simp add: after_events_def)
  then have ful: "futures (after_events ?ep (evs @ [TimerFires, Fulfils i r])) ! i = Fulfilled r"
    using deliver_settles(1) [of i ?s' r] assms(4,5) same by simp
  have "after_events ?ep (evs @ [TimerFires, Rejects i e]) = deliver ?s' (Rejects i e)"
    by (simp add: after_events_def)
  then have rej: "futures (after_events ?ep (evs @ [TimerFires, Rejects i e])) ! i = Rejected e"
    using deliver_settles(2) [of i ?s' e] assms(4,5) same by simp
  from pend fired stays same ful rej show ?thesis by (simp add: Let_def)
qed

theorem drain_times_out_witness:
  "positive (Num 5)
   \<and> futures (after_events (fst (drain (\<lambda>p. Returns)
        \<lparr> dollar = [], taskProducers = [''fast'', ''slow''], bufferSize = Num 30 \<rparr> (Some (Num 5))))
      [Fulfils 0 \<lparr> statusCode = 200, headers = Map.empty \<rparr>]) ! 1 = Pending
   \<and> result (after_events (fst (drain (\<lambda>p. Returns)
        \<lparr> dollar = [], taskProducers = [''fast'', ''slow''], bufferSize = Num 30 \<rparr> (Some (Num 5))))
      ([Fulfils 0 \<lparr> statusCode = 200, headers = Map.empty \<rparr>] @ [TimerFires])) = Fulfilled False
   \<and> futures (after_events (fst (drain (\<lambda>p. Returns)
        \<lparr> dollar = [], taskProducers = [''fast'', ''slow''], bufferSize = Num 30 \<rparr> (Some (Num 5))))
      ([Fulfils 0 \<lparr> statusCode = 200, headers = Map.empty \<rparr>]
        @ [TimerFires, Fulfils 1 \<lparr> statusCode = 429, headers = Map.empty \<rparr>])) ! 1
     = Fulfilled \<lparr> statusCode = 429, headers = Map.empty \<rparr>"
proof -
  let ?b = "\<lparr> dollar = [], taskProducers = [''fast'', ''slow''], bufferSize = Num 30 \<rparr>"
  let ?ep = "fst (drain (\<lambda>p. Returns) ?b (Some (Num 5)))"
  let ?evs = "[Fulfils 0 \<lparr> statusCode = 200, headers = Map.empty \<rparr>]"
  have r: "\<forall>p \<in> set (taskProducers ?b). (\<lambda>p. Returns) p = Returns" by simp
  have pos: "positive (Num 5)" by simp
  have nt: "TimerFires \<notin> set ?evs" by simp
  have len: "1 < length (futures (after_events ?ep ?evs))" by (simp add: run_simps)
  have pend: "futures (after_events ?ep ?evs) ! 1 = Pending" by (simp add: run_simps)
  note inst = drain_times_out [OF r pos nt len pend,
      of "[]" "\<lparr> statusCode = 429, headers = Map.empty \<rparr>" "OtherError ''x''"]
  from inst have a: "result (after_events ?ep (?evs @ [TimerFires])) = Fulfilled False"
    unfolding Let_def by blast
  from inst have b: "futures (after_events ?ep
        (?evs @ [TimerFires, Fulfils 1 \<lparr> statusCode = 429, headers = Map.empty \<rparr>])) ! 1
      = Fulfilled \<lparr> statusCode = 429, headers = Map.empty \<rparr>"
    unfolding Let_def by blast
  from pos pend a b show ?thesis by (intro conjI)
qed

subsection \<open>C7: the response mapping\<close>

text \<open>
  C7: the result built from a response has the response's status as \<open>statusCode\<close> and a
  header object with exactly the keys \<open>x-sentry-rate-limits\<close> and \<open>retry-after\<close>, bound to
  what \<open>headers.get\<close> yields for \<open>X-Sentry-Rate-Limits\<close> and \<open>Retry-After\<close> (\<open>null\<close> when
  absent). Nothing else of the response matters: two responses that agree on the status and on
  these two headers give the same result.
\<close>

theorem response_mapping:
  "statusCode (on_response response) = status response
   \<and> dom (headers (on_response response)) = {''x-sentry-rate-limits'', ''retry-after''}
   \<and> headers (on_response response) ''x-sentry-rate-limits''
       = Some (headers_get response ''X-Sentry-Rate-Limits'')
   \<and> headers (on_response response) ''retry-after''
       = Some (headers_get response ''Retry-After'')
   \<and> (status other = status response
        \<and> headers_get other ''X-Sentry-Rate-Limits'' = headers_get response ''X-Sentry-Rate-Limits''
        \<and> headers_get other ''Retry-After'' = headers_get response ''Retry-After''
        \<longrightarrow> on_response other = on_response response)
   \<and> makeRequest (\<lambda>u init. Fulfilled response) options request
       = Fulfilled (on_response response)"
  by (auto simp: on_response_def makeRequest_def)

theorem response_mapping_witness:
  "headers (on_response \<lparr> status = 429,
        headers_get = (\<lambda>name. if name = ''X-Sentry-Rate-Limits'' then Some ''60:key''
                               else if name = ''Content-Type'' then Some ''application/json''
                               else None) \<rparr>) ''x-sentry-rate-limits'' = Some (Some ''60:key'')
   \<and> headers (on_response \<lparr> status = 429,
        headers_get = (\<lambda>name. if name = ''X-Sentry-Rate-Limits'' then Some ''60:key''
                               else if name = ''Content-Type'' then Some ''application/json''
                               else None) \<rparr>) ''retry-after'' = Some None
   \<and> on_response \<lparr> status = 429,
        headers_get = (\<lambda>name. if name = ''X-Sentry-Rate-Limits'' then Some ''60:key''
                               else if name = ''Content-Type'' then Some ''application/json''
                               else None) \<rparr>
     = on_response \<lparr> status = 429,
        headers_get = (\<lambda>name. if name = ''X-Sentry-Rate-Limits'' then Some ''60:key'' else None) \<rparr>"
proof -
  let ?full = "\<lparr> status = 429,
        headers_get = (\<lambda>name. if name = ''X-Sentry-Rate-Limits'' then Some ''60:key''
                               else if name = ''Content-Type'' then Some ''application/json''
                               else None) \<rparr>"
  let ?less = "\<lparr> status = 429,
        headers_get = (\<lambda>name. if name = ''X-Sentry-Rate-Limits'' then Some ''60:key'' else None) \<rparr>"
  note inst = response_mapping [of ?full ?less]
  have same: "status ?full = status ?less
        \<and> headers_get ?full ''X-Sentry-Rate-Limits'' = headers_get ?less ''X-Sentry-Rate-Limits''
        \<and> headers_get ?full ''Retry-After'' = headers_get ?less ''Retry-After''"
    by simp
  note inst' = response_mapping [of ?less ?full]
  have g1: "headers (on_response ?full) ''x-sentry-rate-limits''
      = Some (headers_get ?full ''X-Sentry-Rate-Limits'')" using inst by blast
  have g1': "headers (on_response ?full) ''x-sentry-rate-limits'' = Some (Some ''60:key'')"
    unfolding g1 by simp
  have g2: "headers (on_response ?full) ''retry-after''
      = Some (headers_get ?full ''Retry-After'')" using inst by blast
  have g2': "headers (on_response ?full) ''retry-after'' = Some None"
    unfolding g2 by simp
  have g3: "on_response ?full = on_response ?less" using inst' same by blast
  from g1' g2' g3 show ?thesis by (intro conjI)
qed

subsection \<open>C8: add below capacity\<close>

text \<open>
  C8: when the pending count is below the capacity, \<open>add\<close> appends the producer at the end
  of the pending list and returns a fulfilled promise; the call log is unchanged, so the
  producer has not been called. A later \<open>drain\<close> calls it, after the producers added before
  it.
\<close>

theorem add_below_capacity_appends:
  assumes "length_less (length (taskProducers (buffer w))) (bufferSize (buffer w))"
  shows "add (buffer w) p
           = (Fulfilled (), (buffer w)\<lparr>taskProducers := taskProducers (buffer w) @ [p]\<rparr>)
       \<and> calls (perform invoke w (Add p)) = calls w
       \<and> ((\<forall>q \<in> set (taskProducers (buffer w) @ [p]). invoke q = Returns) \<longrightarrow>
            calls (perform invoke (perform invoke w (Add p)) (Drain t))
              = calls w @ taskProducers (buffer w) @ [p])"
proof -
  from assms have a: "add (buffer w) p
      = (Fulfilled (), (buffer w)\<lparr>taskProducers := taskProducers (buffer w) @ [p]\<rparr>)"
    by (simp add: add_def length_less_not_ge)
  have c: "calls (perform invoke w (Add p)) = calls w"
    by (simp add: a)
  have d: "calls (perform invoke (perform invoke w (Add p)) (Drain t))
              = calls w @ taskProducers (buffer w) @ [p]"
    if "\<forall>q \<in> set (taskProducers (buffer w) @ [p]). invoke q = Returns"
    using invoke_all_Returns [OF that] by (simp add: a drain_def)
  from a c d show ?thesis by blast
qed

theorem add_below_capacity_appends_witness:
  "length_less (length (taskProducers (buffer (new_world (Some (Num 2)) :: string world))))
      (bufferSize (buffer (new_world (Some (Num 2)) :: string world)))
   \<and> add (buffer (new_world (Some (Num 2)))) ''a''
       = (Fulfilled (), \<lparr> dollar = [], taskProducers = [''a''], bufferSize = Num 2 \<rparr>)
   \<and> calls (perform (\<lambda>p. Returns) (new_world (Some (Num 2))) (Add ''a'')) = []
   \<and> calls (perform (\<lambda>p. Returns) (perform (\<lambda>p. Returns) (new_world (Some (Num 2))) (Add ''a''))
        (Drain None)) = [''a'']"
proof -
  let ?w = "new_world (Some (Num 2)) :: string world"
  have below: "length_less (length (taskProducers (buffer ?w))) (bufferSize (buffer ?w))"
    by (simp add: new_world_def new_buffer_def)
  have r: "\<forall>q \<in> set (taskProducers (buffer ?w) @ [''a'']). (\<lambda>p. Returns) q = Returns"
    by simp
  note inst = add_below_capacity_appends [OF below, of "''a''" "\<lambda>p. Returns" None]
  have f1: "add (buffer ?w) ''a''
      = (Fulfilled (), (buffer ?w)\<lparr>taskProducers := taskProducers (buffer ?w) @ [''a'']\<rparr>)"
    using inst by (rule conjunct1)
  have f2: "calls (perform (\<lambda>p. Returns) ?w (Add ''a'')) = calls ?w"
    using inst by blast
  have f3: "calls (perform (\<lambda>p. Returns) (perform (\<lambda>p. Returns) ?w (Add ''a'')) (Drain None))
      = calls ?w @ taskProducers (buffer ?w) @ [''a'']"
    using inst r by blast
  have g1: "add (buffer ?w) ''a''
      = (Fulfilled (), \<lparr> dollar = [], taskProducers = [''a''], bufferSize = Num 2 \<rparr>)"
    unfolding f1 by (simp add: new_world_def new_buffer_def)
  have g2: "calls (perform (\<lambda>p. Returns) ?w (Add ''a'')) = []"
    unfolding f2 by (simp add: new_world_def)
  have g3: "calls (perform (\<lambda>p. Returns) (perform (\<lambda>p. Returns) ?w (Add ''a'')) (Drain None))
      = [''a'']"
    unfolding f3 by (simp add: new_world_def new_buffer_def)
  from below g1 g2 g3 show ?thesis by (intro conjI)
qed

subsection \<open>C9: order of calls and of completions\<close>

text \<open>
  C9: \<open>drain\<close> calls the detached producers in list order, which is the order of the
  \<open>add\<close> calls; all calls are made before \<open>drain\<close> returns, while every returned future is
  still pending. Completion order is free: whichever pending future settles next takes its
  settlement and leaves the other futures as they are.
\<close>

theorem drain_calls_in_order:
  "prefix (started (fst (drain invoke b t))) (taskProducers b)
   \<and> ((\<forall>p \<in> set (taskProducers b). invoke p = Returns) \<longrightarrow>
          started (fst (drain invoke b t)) = taskProducers b
        \<and> futures (fst (drain invoke b t)) = replicate (length (taskProducers b)) Pending)
   \<and> (real (length ps) \<le> c \<and> (\<forall>p \<in> set ps. invoke p = Returns) \<longrightarrow>
          calls (perform_all invoke (new_world (Some (Num c))) (map Add ps @ [Drain t])) = ps)
   \<and> (i < length (futures s) \<and> futures s ! i = Pending \<longrightarrow>
          futures (deliver s (Fulfils i r)) ! i = Fulfilled r
        \<and> futures (deliver s (Rejects i e)) ! i = Rejected e
        \<and> (\<forall>j. j \<noteq> i \<longrightarrow>
              futures (deliver s (Fulfils i r)) ! j = futures s ! j
            \<and> futures (deliver s (Rejects i e)) ! j = futures s ! j))"
proof -
  have a: "started (fst (drain invoke b t)) = taskProducers b
        \<and> futures (fst (drain invoke b t)) = replicate (length (taskProducers b)) Pending"
    if "\<forall>p \<in> set (taskProducers b). invoke p = Returns"
    unfolding drain_no_throw [OF that] by (simp add: map_replicate_const)
  have b: "calls (perform_all invoke (new_world (Some (Num c))) (map Add ps @ [Drain t])) = ps"
    if le: "real (length ps) \<le> c" and r: "\<forall>p \<in> set ps. invoke p = Returns"
  proof -
    define w where "w = perform_all invoke (new_world (Some (Num c))) (map Add ps)"
    have "w = (new_world (Some (Num c)))
        \<lparr>buffer := (buffer (new_world (Some (Num c))))
            \<lparr>taskProducers := taskProducers (buffer (new_world (Some (Num c)))) @ ps\<rparr>,
         added := added (new_world (Some (Num c))) @ replicate (length ps) (Fulfilled ())\<rparr>"
      unfolding w_def using le adds_fit [of "new_world (Some (Num c))" c ps invoke]
      by (simp add: new_world_def new_buffer_def)
    then have tp: "taskProducers (buffer w) = ps" and cl: "calls w = []"
      by (simp_all add: new_world_def new_buffer_def)
    from r tp have rw: "\<forall>p \<in> set (taskProducers (buffer w)). invoke p = Returns" by simp
    have "started (fst (drain invoke (buffer w) t)) = ps"
      unfolding drain_no_throw [OF rw] by (simp add: tp)
    then have "calls (perform invoke w (Drain t)) = ps"
      unfolding perform_drain by (simp add: cl)
    moreover have "perform_all invoke (new_world (Some (Num c))) (map Add ps @ [Drain t])
        = perform invoke w (Drain t)"
      unfolding w_def perform_all_def by (simp only: foldl_append foldl_Cons foldl_Nil)
    ultimately show ?thesis by simp
  qed
  have c: "futures (deliver s (Fulfils i r)) ! i = Fulfilled r
        \<and> futures (deliver s (Rejects i e)) ! i = Rejected e
        \<and> (\<forall>j. j \<noteq> i \<longrightarrow>
              futures (deliver s (Fulfils i r)) ! j = futures s ! j
            \<and> futures (deliver s (Rejects i e)) ! j = futures s ! j)"
    if "i < length (futures s) \<and> futures s ! i = Pending"
    using that deliver_settles [of i s] deliver_leaves_others [of _ i s] by blast
  from drain_prefix [of invoke b t] a b c show ?thesis by blast
qed

theorem drain_calls_in_order_witness:
  "real (length [''a'', ''b'', ''c'']) \<le> 3
   \<and> calls (perform_all (\<lambda>p. Returns) (new_world (Some (Num 3)))
        (map Add [''a'', ''b'', ''c''] @ [Drain None])) = [''a'', ''b'', ''c'']
   \<and> futures (fst (drain (\<lambda>p. Returns)
        \<lparr> dollar = [], taskProducers = [''a'', ''b'', ''c''], bufferSize = Num 3 \<rparr> None))
       = [Pending, Pending, Pending]
   \<and> futures (deliver (fst (drain (\<lambda>p. Returns)
        \<lparr> dollar = [], taskProducers = [''a'', ''b'', ''c''], bufferSize = Num 3 \<rparr> None))
        (Fulfils 2 \<lparr> statusCode = 200, headers = Map.empty \<rparr>)) ! 2
       = Fulfilled \<lparr> statusCode = 200, headers = Map.empty \<rparr>
   \<and> futures (deliver (fst (drain (\<lambda>p. Returns)
        \<lparr> dollar = [], taskProducers = [''a'', ''b'', ''c''], bufferSize = Num 3 \<rparr> None))
        (Fulfils 2 \<lparr> statusCode = 200, headers = Map.empty \<rparr>)) ! 0
       = Pending"
proof -
  let ?inv = "\<lambda>p::string. Returns"
  let ?b = "\<lparr> dollar = [], taskProducers = [''a'', ''b'', ''c''], bufferSize = Num 3 \<rparr>"
  let ?ok = "\<lparr> statusCode = 200, headers = Map.empty \<rparr>"
  define s where "s = fst (drain ?inv ?b None)"
  have le: "real (length [''a'', ''b'', ''c'']) \<le> 3" by simp
  have r: "\<forall>p \<in> set [''a'', ''b'', ''c'']. ?inv p = Returns" by simp
  have rb: "\<forall>p \<in> set (taskProducers ?b). ?inv p = Returns" by simp
  have fs: "futures s = [Pending, Pending, Pending]"
    unfolding s_def by (simp add: drain_def)
  then have pend: "2 < length (futures s) \<and> futures s ! 2 = Pending" by simp
  note inst = drain_calls_in_order [of ?inv ?b None "[''a'', ''b'', ''c'']" 3 2 s ?ok
      "OtherError ''x''"]
  have g1: "calls (perform_all ?inv (new_world (Some (Num 3)))
        (map Add [''a'', ''b'', ''c''] @ [Drain None])) = [''a'', ''b'', ''c'']"
    using inst le r by blast
  have g2: "futures (fst (drain ?inv ?b None)) = replicate (length (taskProducers ?b)) Pending"
    using inst rb by blast
  have g2': "futures (fst (drain ?inv ?b None)) = [Pending, Pending, Pending]"
    unfolding g2 by (simp add: numeral_3_eq_3)
  have g3: "futures (deliver s (Fulfils 2 ?ok)) ! 2 = Fulfilled ?ok"
    using inst pend by blast
  have "(0::nat) \<noteq> 2" by simp
  then have "futures (deliver s (Fulfils 2 ?ok)) ! 0 = futures s ! 0"
    using inst pend by blast
  then have g4: "futures (deliver s (Fulfils 2 ?ok)) ! 0 = Pending"
    by (simp add: fs)
  from le g1 g2' g3 g4 show ?thesis unfolding s_def by (intro conjI)
qed

subsection \<open>C10: the public array\<close>

text \<open>
  C10: the \<open>$\<close> array is empty after construction, no \<open>add\<close> or \<open>drain\<close> changes it, and
  so it is empty after every sequence of \<open>add\<close> and \<open>drain\<close> calls on a new buffer.
\<close>

theorem dollar_stays_empty:
  "dollar (new_buffer arg) = []
   \<and> dollar (buffer (perform invoke w op)) = dollar (buffer w)
   \<and> dollar (buffer (perform_all invoke (new_world arg) ops)) = []"
  by (simp add: perform_dollar perform_all_dollar new_world_def new_buffer_def)

end
